theory Spec2Isabelle
  imports Complex_Main
begin

section \<open>Supermarket queueing simulation (simulator.py)\<close>

text \<open>
  The program is a discrete-event simulation written against the simpy library.  The
  embedding below has three layers:
  \<^item> the part of simpy the program uses: the environment's clock and event heap, timeouts,
    process start and end, single-capacity resources with their request queue, and the
    ``request or timeout'' condition;
  \<^item> the class \<open>Supermarket\<close>: its fields and its three generator functions, cut at their
    \<open>yield\<close> points into one handler per resumption;
  \<^item> \<open>simulate\<close>: the replication loop and the numpy statistics.

  Time and the random draws are real numbers (the floats of the source without rounding).
  \<open>C\<close> and \<open>profit\<close> are Python numbers, an int or a float: the class default and the sweep
  of the source pass ints, the interface allows floats, and the arithmetic on \<open>profit\<close> is
  the one Python does for the operand types at hand.
  The pseudo-random generator is a parameter \<open>draws\<close>: the \<open>k\<close>-th call of
  \<open>np.random.exponential(scale)\<close> returns \<open>scale * draws k\<close>.
\<close>

subsection \<open>Errors\<close>

datatype py_error = IndexError | ZeroDivisionError | ValueError | RuntimeError

subsection \<open>Python numbers\<close>

text \<open>
  A Python float is a binary64 number.  \<open>round64\<close> rounds a real number to the nearest
  number with a 53-bit significand, ties to the even significand; the exponent range is
  not bounded (no overflow to infinity and no subnormal numbers, which need magnitudes
  beyond \<open>2 ^ 1023\<close> or below \<open>2 ^ - 1022\<close>).
\<close>

definition rte :: "real \<Rightarrow> int" where
  "rte r =
     (let f = \<lfloor>r\<rfloor>; d = r - of_int f
      in if d < 1 / 2 then f else if 1 / 2 < d then f + 1 else if even f then f else f + 1)"

definition pow2 :: "int \<Rightarrow> real" where
  "pow2 k = (if 0 \<le> k then 2 ^ nat k else 1 / 2 ^ nat (- k))"

definition round64 :: "real \<Rightarrow> real" where
  "round64 x =
     (if x = 0 then 0
      else let q = pow2 (\<lfloor>log 2 \<bar>x\<bar>\<rfloor> - 52) in of_int (rte (x / q)) * q)"

text \<open>
  An int is unbounded and its arithmetic exact.  An operation with a float operand
  converts the other operand to float and rounds its result.
\<close>

datatype pynum = PyInt int | PyFloat real

fun py_float :: "pynum \<Rightarrow> real" where
  "py_float (PyInt i) = round64 (of_int i)"
| "py_float (PyFloat x) = x"

fun py_add :: "pynum \<Rightarrow> pynum \<Rightarrow> pynum" where
  "py_add (PyInt i) (PyInt j) = PyInt (i + j)"
| "py_add a b = PyFloat (round64 (py_float a + py_float b))"

fun py_sub :: "pynum \<Rightarrow> pynum \<Rightarrow> pynum" where
  "py_sub (PyInt i) (PyInt j) = PyInt (i - j)"
| "py_sub a b = PyFloat (round64 (py_float a - py_float b))"

fun py_mul :: "pynum \<Rightarrow> pynum \<Rightarrow> pynum" where
  "py_mul (PyInt i) (PyInt j) = PyInt (i * j)"
| "py_mul a b = PyFloat (round64 (py_float a * py_float b))"

subsection \<open>simpy: events and the event heap\<close>

text \<open>A cashier is named by its index in \<open>self.cashiers\<close>, or is \<open>self.extra_cashier\<close>.\<close>

datatype cashier_ref = Regular nat | Extra

text \<open>The three generator functions a process can be started with.\<close>

datatype proc = Arrival | Customer real | Opener

text \<open>
  The events that the program puts on the heap.  A customer's request, patience timeout,
  condition and service timeout carry the customer's number; \<open>ProcessEnd\<close> is the event of a
  process that has returned (nothing waits for it).
\<close>

datatype event =
    Initialize proc
  | Until
  | ArrivalTimeout
  | Request nat
  | PatienceTimeout nat
  | Condition nat
  | ServiceTimeout nat
  | Release cashier_ref
  | OpenerTimeout
  | ProcessEnd

type_synonym entry = "real \<times> nat \<times> nat \<times> event"

definition URGENT :: nat where "URGENT = 0"
definition NORMAL :: nat where "NORMAL = 1"

text \<open>
  The heap holds tuples \<open>(time, priority, eid, event)\<close> and pops the least one; event ids
  are unique, so the order is decided by the first three components.  The heap is kept as
  a list in dispatch order.
\<close>

fun before :: "entry \<Rightarrow> entry \<Rightarrow> bool" where
  "before (t, p, i, _) (t', p', i', _) = (t < t' \<or> (t = t' \<and> (p < p' \<or> (p = p' \<and> i < i'))))"

fun heappush :: "entry \<Rightarrow> entry list \<Rightarrow> entry list" where
  "heappush e [] = [e]"
| "heappush e (x # xs) = (if before e x then e # x # xs else x # heappush e xs)"

subsection \<open>State\<close>

text \<open>\<open>simpy.Resource\<close> with capacity 1: the granted requests and the pending ones.\<close>

record resource =
  users :: "nat list"
  queue :: "nat list"

datatype stage = Waiting | InService

text \<open>
  A customer process suspended at one of its two \<open>yield\<close>s, with the state of its request
  event (triggered when the resource grants it, processed when the event is dispatched) and
  of its condition event.
\<close>

record customer =
  arrival_time :: real
  cashier :: cashier_ref
  req_triggered :: bool
  req_processed :: bool
  cond_triggered :: bool
  stage :: stage

text \<open>The keyword arguments of \<open>Supermarket.__init__\<close> (defaults 4, 4, 4, 3).\<close>

record params =
  num_cashiers :: int
  extra_cashier_policy :: int
  lambda_rate :: real
  C :: pynum

text \<open>
  One replication: the Supermarket object, its environment, the suspended customer
  processes and the position in the stream of random draws.  The last four fields are
  bookkeeping that the source does not have: the number of completed services, the number
  of times the flag was raised, the time at which it was last raised, and the windows
  closed so far as (opened, closed) pairs.
\<close>

record sim = params +
  now :: real
  eid :: nat
  evq :: "entry list"
  cashiers :: "resource list"
  lost_customers :: nat
  profit :: pynum
  waiting_times :: "real list"
  open_extra_cashier :: bool
  extra_cashier :: resource
  customers :: "nat \<rightharpoonup> customer"
  next_cid :: nat
  rng :: nat
  served :: nat
  activations :: nat
  opened_at :: real
  windows :: "(real \<times> real) list"

subsection \<open>simpy: scheduling, timeouts, processes\<close>

definition schedule :: "nat \<Rightarrow> real \<Rightarrow> event \<Rightarrow> sim \<Rightarrow> sim" where
  "schedule priority delay ev s =
     s\<lparr>evq := heappush (now s + delay, priority, eid s, ev) (evq s), eid := eid s + 1\<rparr>"

text \<open>\<open>env.timeout(delay)\<close>: simpy raises ValueError on a negative delay.\<close>

definition timeout :: "real \<Rightarrow> event \<Rightarrow> sim \<Rightarrow> py_error + sim" where
  "timeout delay ev s = (if delay < 0 then Inl ValueError else Inr (schedule NORMAL delay ev s))"

text \<open>\<open>env.process(gen)\<close>: the generator starts when its Initialize event is dispatched.\<close>

definition process :: "proc \<Rightarrow> sim \<Rightarrow> sim" where
  "process p s = schedule URGENT 0 (Initialize p) s"

text \<open>A generator that returns: its process event is scheduled.\<close>

definition process_end :: "sim \<Rightarrow> sim" where
  "process_end s = schedule NORMAL 0 ProcessEnd s"

text \<open>\<open>np.random.exponential(scale)\<close>: numpy raises ValueError on a negative scale.\<close>

definition exponential :: "(nat \<Rightarrow> real) \<Rightarrow> real \<Rightarrow> sim \<Rightarrow> py_error + (real \<times> sim)" where
  "exponential draws scale s =
     (if scale < 0 then Inl ValueError else Inr (scale * draws (rng s), s\<lparr>rng := rng s + 1\<rparr>))"

subsection \<open>simpy: resources\<close>

definition get_resource :: "cashier_ref \<Rightarrow> sim \<Rightarrow> resource" where
  "get_resource r s = (case r of Regular i \<Rightarrow> cashiers s ! i | Extra \<Rightarrow> extra_cashier s)"

definition set_resource :: "cashier_ref \<Rightarrow> resource \<Rightarrow> sim \<Rightarrow> sim" where
  "set_resource r res s =
     (case r of Regular i \<Rightarrow> s\<lparr>cashiers := (cashiers s)[i := res]\<rparr>
      | Extra \<Rightarrow> s\<lparr>extra_cashier := res\<rparr>)"

definition mark_triggered :: "nat \<Rightarrow> sim \<Rightarrow> sim" where
  "mark_triggered rid s =
     (case customers s rid of None \<Rightarrow> s
      | Some c \<Rightarrow> s\<lparr>customers := (customers s)(rid \<mapsto> c\<lparr>req_triggered := True\<rparr>)\<rparr>)"

text \<open>
  \<open>BaseResource._trigger_put\<close>: \<open>Resource._do_put\<close> returns nothing, so the loop looks at the
  head of the queue only.  If a slot is free the head becomes a user, its request event
  succeeds (is scheduled) and it leaves the queue.
\<close>

definition trigger_put :: "cashier_ref \<Rightarrow> sim \<Rightarrow> sim" where
  "trigger_put r s =
     (let res = get_resource r s in
      case queue res of [] \<Rightarrow> s
      | h # rest \<Rightarrow>
          if length (users res) < 1
          then schedule NORMAL 0 (Request h)
                 (mark_triggered h (set_resource r \<lparr>users = users res @ [h], queue = rest\<rparr> s))
          else s)"

text \<open>\<open>resource.request()\<close>: the new request joins the queue, then \<open>_trigger_put\<close> runs.\<close>

definition request :: "cashier_ref \<Rightarrow> nat \<Rightarrow> sim \<Rightarrow> sim" where
  "request r rid s =
     (let res = get_resource r s
      in trigger_put r (set_resource r (res\<lparr>queue := queue res @ [rid]\<rparr>) s))"

text \<open>
  \<open>Request.__exit__\<close> at the end of the \<open>with\<close> block: \<open>cancel()\<close> removes a request that was
  never triggered from the queue (\<open>list.remove\<close> raises ValueError if it is not there), then
  \<open>resource.release(request)\<close> removes it from the users if it is one and schedules the
  Release event, whose callback is \<open>_trigger_put\<close>.
\<close>

definition cancel :: "cashier_ref \<Rightarrow> nat \<Rightarrow> bool \<Rightarrow> sim \<Rightarrow> py_error + sim" where
  "cancel r rid triggered s =
     (let res = get_resource r s in
      if \<not> triggered
      then (if rid \<in> set (queue res)
            then Inr (set_resource r (res\<lparr>queue := remove1 rid (queue res)\<rparr>) s)
            else Inl ValueError)
      else Inr s)"

definition release :: "cashier_ref \<Rightarrow> nat \<Rightarrow> sim \<Rightarrow> sim" where
  "release r rid s =
     (let res = get_resource r s
      in schedule NORMAL 0 (Release r) (set_resource r (res\<lparr>users := remove1 rid (users res)\<rparr>) s))"

definition exit_with :: "nat \<Rightarrow> customer \<Rightarrow> sim \<Rightarrow> py_error + sim" where
  "exit_with rid c s =
     (case cancel (cashier c) rid (req_triggered c) s of Inl e \<Rightarrow> Inl e
      | Inr s1 \<Rightarrow> Inr (release (cashier c) rid s1))"

text \<open>
  \<open>Condition._check\<close>, the callback that the condition \<open>request | timeout\<close> puts on both
  events: the first call makes the condition succeed (schedules it), a later one returns.
\<close>

definition check :: "nat \<Rightarrow> customer \<Rightarrow> sim \<Rightarrow> sim" where
  "check rid c s =
     (if cond_triggered c then s
      else schedule NORMAL 0 (Condition rid)
             (s\<lparr>customers := (customers s)(rid \<mapsto> c\<lparr>cond_triggered := True\<rparr>)\<rparr>))"

subsection \<open>Supermarket\<close>

text \<open>
  \<open>choose_cashier\<close>.  \<open>list.sort\<close> is stable, as is \<open>sort_key\<close>; the cashier object of a pair
  is its index.  \<open>queues[0]\<close> raises IndexError when there is no cashier.
\<close>

definition choose_cashier :: "sim \<Rightarrow> py_error + (cashier_ref option \<times> sim)" where
  "choose_cashier s =
     (let queues = sort_key fst
            (map (\<lambda>(i, c). (length (queue c), i)) (enumerate 0 (cashiers s)))
      in case queues of [] \<Rightarrow> Inl IndexError
         | (min_queue, min_cashier) # _ \<Rightarrow>
             if open_extra_cashier s then Inr (Some Extra, s)
             else
               let s1 = (if \<not> open_extra_cashier s \<and> extra_cashier_policy s \<le> int min_queue
                         then process Opener s else s)
               in Inr (if min_queue < 5 then Some (Regular min_cashier) else None, s1))"

text \<open>
  \<open>customer_arrival\<close>: the part of the loop body up to the \<open>yield\<close>, and the resumption
  after it.  \<open>1.0 / self.lambda_rate\<close> raises ZeroDivisionError for a Python number 0.
\<close>

definition customer_arrival :: "(nat \<Rightarrow> real) \<Rightarrow> sim \<Rightarrow> py_error + sim" where
  "customer_arrival draws s =
     (if lambda_rate s = 0 then Inl ZeroDivisionError
      else case exponential draws (1 / lambda_rate s) s of Inl e \<Rightarrow> Inl e
           | Inr (arrival_interval, s1) \<Rightarrow> timeout arrival_interval ArrivalTimeout s1)"

definition on_arrival_timeout :: "(nat \<Rightarrow> real) \<Rightarrow> sim \<Rightarrow> py_error + sim" where
  "on_arrival_timeout draws s = customer_arrival draws (process (Customer (now s)) s)"

text \<open>\<open>customer_process\<close> from its start to the first \<open>yield\<close> (or to its end when it balks).\<close>

definition customer_process :: "real \<Rightarrow> sim \<Rightarrow> py_error + sim" where
  "customer_process arrival s =
     (case choose_cashier s of Inl e \<Rightarrow> Inl e
      | Inr (None, s1) \<Rightarrow> Inr (process_end (s1\<lparr>lost_customers := lost_customers s1 + 1\<rparr>))
      | Inr (Some r, s1) \<Rightarrow>
          let rid = next_cid s1;
              c = \<lparr>arrival_time = arrival, cashier = r, req_triggered = False,
                   req_processed = False, cond_triggered = False, stage = Waiting\<rparr>;
              s2 = s1\<lparr>next_cid := rid + 1, customers := (customers s1)(rid \<mapsto> c)\<rparr>
          in timeout 1 (PatienceTimeout rid) (request r rid s2))"

text \<open>
  Dispatch of the request event and of the patience timeout of a customer: while the customer
  waits at the race, \<open>_check\<close> is a callback of both; afterwards it has been removed and
  the dispatch does nothing.
\<close>

definition on_request :: "nat \<Rightarrow> sim \<Rightarrow> sim" where
  "on_request rid s =
     (case customers s rid of None \<Rightarrow> s
      | Some c \<Rightarrow>
          if stage c = Waiting
          then (let c1 = c\<lparr>req_processed := True\<rparr>
                in check rid c1 (s\<lparr>customers := (customers s)(rid \<mapsto> c1)\<rparr>))
          else s)"

definition on_patience :: "nat \<Rightarrow> sim \<Rightarrow> sim" where
  "on_patience rid s =
     (case customers s rid of None \<Rightarrow> s
      | Some c \<Rightarrow> if stage c = Waiting then check rid c s else s)"

text \<open>
  Dispatch of the condition: \<open>customer_process\<close> resumes after the race.  \<open>request in result\<close>
  holds iff the request event has been processed by now.
\<close>

definition on_condition :: "(nat \<Rightarrow> real) \<Rightarrow> nat \<Rightarrow> sim \<Rightarrow> py_error + sim" where
  "on_condition draws rid s =
     (case customers s rid of None \<Rightarrow> Inr s
      | Some c \<Rightarrow>
          if req_processed c
          then (let s1 = s\<lparr>waiting_times := waiting_times s @ [now s - arrival_time c]\<rparr>
                in case exponential draws 1 s1 of Inl e \<Rightarrow> Inl e
                   | Inr (service_time, s2) \<Rightarrow>
                       timeout service_time (ServiceTimeout rid)
                         (s2\<lparr>customers := (customers s2)(rid \<mapsto> c\<lparr>stage := InService\<rparr>)\<rparr>))
          else (case exit_with rid c (s\<lparr>lost_customers := lost_customers s + 1\<rparr>) of
                  Inl e \<Rightarrow> Inl e
                | Inr s1 \<Rightarrow> Inr (process_end (s1\<lparr>customers := (customers s1)(rid := None)\<rparr>))))"

text \<open>Dispatch of the service timeout: the customer pays, leaves the \<open>with\<close> block and ends.\<close>

definition on_service :: "nat \<Rightarrow> sim \<Rightarrow> py_error + sim" where
  "on_service rid s =
     (case customers s rid of None \<Rightarrow> Inr s
      | Some c \<Rightarrow>
          (case exit_with rid c (s\<lparr>profit := py_add (profit s) (PyInt 10), served := served s + 1\<rparr>) of
             Inl e \<Rightarrow> Inl e
           | Inr s1 \<Rightarrow> Inr (process_end (s1\<lparr>customers := (customers s1)(rid := None)\<rparr>))))"

text \<open>
  \<open>open_extra_cashier_process\<close>: up to its \<open>yield\<close>, and after it.  The flag is raised
  before the timeout of 2 and lowered after it, so the overflow resource takes customers
  during these 2 time units.  (The comment at the timeout, ``Delay to open the extra
  cashier'', reads as if the resource were not yet open then; the model follows the
  statements.)
\<close>

definition open_extra_cashier_process :: "sim \<Rightarrow> py_error + sim" where
  "open_extra_cashier_process s =
     (if \<not> open_extra_cashier s
      then timeout 2 OpenerTimeout
             (s\<lparr>open_extra_cashier := True, activations := activations s + 1, opened_at := now s\<rparr>)
      else Inr (process_end s))"

definition on_opener_timeout :: "sim \<Rightarrow> sim" where
  "on_opener_timeout s =
     process_end (s\<lparr>open_extra_cashier := False,
                   profit := py_sub (profit s) (py_mul (PyInt 2) (C s)),
                   windows := windows s @ [(opened_at s, now s)]\<rparr>)"

subsection \<open>The event loop\<close>

text \<open>The callbacks of each event.  \<open>Until\<close> is handled by \<open>step\<close>.\<close>

fun dispatch :: "(nat \<Rightarrow> real) \<Rightarrow> event \<Rightarrow> sim \<Rightarrow> py_error + sim" where
  "dispatch draws (Initialize Arrival) s = customer_arrival draws s"
| "dispatch draws (Initialize (Customer arrival)) s = customer_process arrival s"
| "dispatch draws (Initialize Opener) s = open_extra_cashier_process s"
| "dispatch draws ArrivalTimeout s = on_arrival_timeout draws s"
| "dispatch draws (Request rid) s = Inr (on_request rid s)"
| "dispatch draws (PatienceTimeout rid) s = Inr (on_patience rid s)"
| "dispatch draws (Condition rid) s = on_condition draws rid s"
| "dispatch draws (ServiceTimeout rid) s = on_service rid s"
| "dispatch draws (Release r) s = Inr (trigger_put r s)"
| "dispatch draws OpenerTimeout s = Inr (on_opener_timeout s)"
| "dispatch draws ProcessEnd s = Inr s"
| "dispatch draws Until s = Inr s"

text \<open>
  \<open>Environment.step\<close>: pop the least entry, set the clock, run the callbacks.  The result
  is an error (an exception that leaves \<open>env.run\<close>), or the next state with a flag that is
  true when the \<open>until\<close> event was dispatched (StopSimulation).  An exception raised in a
  process is reported at once: simpy reports it when the failed process event is
  dispatched, which is later at the same instant and changes nothing the caller can see.
\<close>

definition step :: "(nat \<Rightarrow> real) \<Rightarrow> sim \<Rightarrow> py_error + (bool \<times> sim)" where
  "step draws s =
     (case evq s of [] \<Rightarrow> Inl RuntimeError
      | (t, p, i, ev) # rest \<Rightarrow>
          (let s1 = s\<lparr>now := t, evq := rest\<rparr> in
           if ev = Until then Inr (True, s1)
           else case dispatch draws ev s1 of Inl e \<Rightarrow> Inl e | Inr s2 \<Rightarrow> Inr (False, s2)))"

text \<open>
  \<open>env.run(until=200)\<close> after the \<open>until\<close> event has been scheduled: step until it is
  dispatched.  The loop need not end (infinitely many arrivals before the horizon), so it
  takes fuel; \<open>None\<close> is a run that has not returned after \<open>fuel\<close> events.
\<close>

fun run :: "nat \<Rightarrow> (nat \<Rightarrow> real) \<Rightarrow> sim \<Rightarrow> (py_error + sim) option" where
  "run 0 draws s = None"
| "run (Suc fuel) draws s =
     (case step draws s of Inl e \<Rightarrow> Some (Inl e)
      | Inr (stop, s1) \<Rightarrow> if stop then Some (Inr s1) else run fuel draws s1)"

text \<open>\<open>Supermarket.__init__\<close> on a fresh environment; \<open>idx\<close> is the position in the draws.\<close>

definition Supermarket :: "params \<Rightarrow> nat \<Rightarrow> sim" where
  "Supermarket p idx =
     \<lparr>num_cashiers = num_cashiers p, extra_cashier_policy = extra_cashier_policy p,
      lambda_rate = lambda_rate p, C = C p,
      now = 0, eid = 0, evq = [],
      cashiers = replicate (nat (num_cashiers p)) \<lparr>users = [], queue = []\<rparr>,
      lost_customers = 0, profit = PyInt 0, waiting_times = [], open_extra_cashier = False,
      extra_cashier = \<lparr>users = [], queue = []\<rparr>,
      customers = Map.empty, next_cid = 0, rng = idx,
      served = 0, activations = 0, opened_at = 0, windows = []\<rparr>"

text \<open>
  The body of the loop of \<open>simulate\<close> up to the event loop: the arrival process is
  started and \<open>run\<close> schedules its \<open>until\<close> event, urgent, at time 200.
\<close>

definition replication_start :: "params \<Rightarrow> nat \<Rightarrow> sim" where
  "replication_start p idx = schedule URGENT 200 Until (process Arrival (Supermarket p idx))"

definition replication :: "nat \<Rightarrow> (nat \<Rightarrow> real) \<Rightarrow> params \<Rightarrow> nat \<Rightarrow> (py_error + sim) option" where
  "replication fuel draws p idx = run fuel draws (replication_start p idx)"

subsection \<open>numpy statistics and \<open>simulate\<close>\<close>











subsection \<open>Reachable states\<close>

text \<open>The states of a replication between two events.\<close>

inductive reachable :: "(nat \<Rightarrow> real) \<Rightarrow> sim \<Rightarrow> bool" for draws :: "nat \<Rightarrow> real" where
  reach_start: "reachable draws (replication_start p idx)"
| reach_step: "reachable draws s \<Longrightarrow> step draws s = Inr (stop, s') \<Longrightarrow> reachable draws s'"

text \<open>The state after \<open>n\<close> events (or the last state before an error or the horizon).\<close>

fun exec :: "nat \<Rightarrow> (nat \<Rightarrow> real) \<Rightarrow> sim \<Rightarrow> sim" where
  "exec 0 draws s = s"
| "exec (Suc n) draws s =
     (case step draws s of Inl e \<Rightarrow> s
      | Inr (stop, s1) \<Rightarrow> if stop then s else exec n draws s1)"

text \<open>The event that is dispatched next.\<close>

definition next_event :: "sim \<Rightarrow> (real \<times> event) option" where
  "next_event s = (case evq s of [] \<Rightarrow> None | (t, p, i, ev) # rest \<Rightarrow> Some (t, ev))"

subsection \<open>Invariants\<close>

text \<open>
  With an int \<open>C\<close> the profit is an int: what the completed services earned minus what the
  closed windows cost.
\<close>

definition profit_inv :: "sim \<Rightarrow> bool" where
  "profit_inv s \<longleftrightarrow>
     (\<forall>c. C s = PyInt c \<longrightarrow>
        profit s = PyInt (10 * int (served s) - 2 * c * int (length (windows s))))"

text \<open>What a replication that has returned reports of its accounts.\<close>

definition final_accounts :: "(py_error + sim) option \<Rightarrow> (nat \<times> nat \<times> pynum) option" where
  "final_accounts r =
     (case r of Some (Inr s) \<Rightarrow> Some (served s, length (windows s), profit s) | _ \<Rightarrow> None)"

subsection \<open>Scenarios\<close>

text \<open>
  One cashier, threshold 0, rate 1, cost 3.  The first customer arrives at time 1 and
  opens the overflow window; the service takes 1; the next arrival is after the horizon.
\<close>

definition params_one :: params where
  "params_one = \<lparr>num_cashiers = 1, extra_cashier_policy = 0, lambda_rate = 1, C = PyInt 3\<rparr>"

definition draws_one :: "nat \<Rightarrow> real" where
  "draws_one k = (if k = 1 then 300 else 1)"

text \<open>
  The same with \<open>C = 0.1\<close>, the float nearest to one tenth, and a second customer: the
  first arrives at time 1, opens a window (closed at 3) and is served until 2; the second
  arrives at 4, opens a window (closed at 6) and is still in service at the horizon.
\<close>

definition params_tenth :: params where
  "params_tenth =
     \<lparr>num_cashiers = 1, extra_cashier_policy = 0, lambda_rate = 1,
      C = PyFloat (3602879701896397 / 36028797018963968)\<rparr>"

definition draws_two :: "nat \<Rightarrow> real" where
  "draws_two k = (if k = 0 \<or> k = 2 then 1 else if k = 1 then 3 else 300)"

text \<open>The queue length of the regular cashier with index \<open>i\<close>.\<close>

definition qlen :: "sim \<Rightarrow> nat \<Rightarrow> nat" where
  "qlen s i = length (queue (cashiers s ! i))"

text \<open>
  Three busy cashiers with 2, 1 and 1 waiting customers, the overflow window closed.
\<close>

definition three_queues :: sim where
  "three_queues =
     (Supermarket \<lparr>num_cashiers = 3, extra_cashier_policy = 4, lambda_rate = 4, C = PyInt 3\<rparr> 0)
       \<lparr>cashiers := [\<lparr>users = [0], queue = [3, 4]\<rparr>, \<lparr>users = [1], queue = [5]\<rparr>,
                    \<lparr>users = [2], queue = [6]\<rparr>]\<rparr>"

text \<open>
  One cashier, threshold 6 (never reached), rate 1.  The first customer arrives at time 1
  and is served for 10 time units; five more arrive at 1.1, ..., 1.5 and wait; the state
  \<open>busy_state\<close> is the one in which the customer arriving at 1.6 is about to start.
\<close>

definition params_busy :: params where
  "params_busy = \<lparr>num_cashiers = 1, extra_cashier_policy = 6, lambda_rate = 1, C = PyInt 3\<rparr>"

definition draws_busy :: "nat \<Rightarrow> real" where
  "draws_busy k = (if k = 0 then 1 else if k = 2 then 10 else 1 / 10)"

definition busy_state :: sim where
  "busy_state = exec 16 draws_busy (replication_start params_busy 0)"

subsection \<open>Reading results\<close>








subsection \<open>Scenarios for \<open>simulate\<close>\<close>








subsection \<open>Customers, queues and pending events\<close>

text \<open>A reference to a cashier that exists.\<close>

definition valid_ref :: "sim \<Rightarrow> cashier_ref \<Rightarrow> bool" where
  "valid_ref s r = (case r of Regular i \<Rightarrow> i < length (cashiers s) | Extra \<Rightarrow> True)"

text \<open>
  Customers and queues agree: a suspended customer has a number below the next one and a
  cashier that exists; the pending requests of a cashier are distinct and are those of its
  customers whose request has not been granted; a request that was processed was granted.
\<close>

definition cust_inv :: "sim \<Rightarrow> bool" where
  "cust_inv s \<longleftrightarrow>
     (\<forall>rid c. customers s rid = Some c \<longrightarrow> rid < next_cid s \<and> valid_ref s (cashier c)) \<and>
     (\<forall>r rid. valid_ref s r \<longrightarrow> rid \<in> set (queue (get_resource r s)) \<longrightarrow>
        (\<exists>c. customers s rid = Some c \<and> cashier c = r \<and> \<not> req_triggered c)) \<and>
     (\<forall>r. valid_ref s r \<longrightarrow> distinct (queue (get_resource r s))) \<and>
     (\<forall>rid c. customers s rid = Some c \<longrightarrow> \<not> req_triggered c \<longrightarrow>
        rid \<in> set (queue (get_resource (cashier c) s))) \<and>
     (\<forall>rid c. customers s rid = Some c \<longrightarrow> req_processed c \<longrightarrow> req_triggered c)"

text \<open>
  What holds of a pending event: a customer starts at its arrival time; the opening
  process is started only where a cashier exists; a request event belongs to a granted
  request; a patience timeout is due one time unit after the arrival, and so is the
  condition unless the request has been processed; a release is for a cashier that exists.
\<close>

fun entry_ok :: "sim \<Rightarrow> entry \<Rightarrow> bool" where
  "entry_ok s (t, p, i, Initialize (Customer a)) = (t = a)"
| "entry_ok s (t, p, i, Initialize Opener) = (cashiers s \<noteq> [])"
| "entry_ok s (t, p, i, Request rid) =
     (rid < next_cid s \<and> (\<forall>c. customers s rid = Some c \<longrightarrow> req_triggered c))"
| "entry_ok s (t, p, i, PatienceTimeout rid) =
     (rid < next_cid s \<and> (\<forall>c. customers s rid = Some c \<longrightarrow> t = arrival_time c + 1))"
| "entry_ok s (t, p, i, Condition rid) =
     (rid < next_cid s \<and>
      (\<forall>c. customers s rid = Some c \<longrightarrow> req_processed c \<or> t = arrival_time c + 1))"
| "entry_ok s (t, p, i, Release r) = valid_ref s r"
| "entry_ok s (t, p, i, ev) = True"



text \<open>
  How the customers change in a step: numbers are not reused, a record keeps its arrival
  time, and a request stays granted and processed once it is.
\<close>

definition evolves :: "sim \<Rightarrow> sim \<Rightarrow> bool" where
  "evolves s s' \<longleftrightarrow>
     next_cid s \<le> next_cid s' \<and> length (cashiers s') = length (cashiers s) \<and>
     (\<forall>rid c'. rid < next_cid s \<longrightarrow> customers s' rid = Some c' \<longrightarrow>
        (\<exists>c. customers s rid = Some c \<and> arrival_time c' = arrival_time c \<and>
           (req_triggered c \<longrightarrow> req_triggered c') \<and> (req_processed c \<longrightarrow> req_processed c')))"


subsection \<open>The overflow window\<close>

text \<open>The due times of the pending closing timeouts of the opening process.\<close>

fun is_close :: "entry \<Rightarrow> bool" where
  "is_close (t, p, i, ev) = (ev = OpenerTimeout)"

definition pending_closes :: "sim \<Rightarrow> real list" where
  "pending_closes s = map fst (filter is_close (evq s))"

text \<open>The clock is not ahead of any pending event, and the heap is in order of time.\<close>

definition clock_inv :: "sim \<Rightarrow> bool" where
  "clock_inv s \<longleftrightarrow> sorted (now s # map fst (evq s))"


text \<open>
  A step that neither raises nor lowers the flag: it leaves the clock and the window
  bookkeeping alone and schedules no closing timeout.
\<close>

definition quiet :: "sim \<Rightarrow> sim \<Rightarrow> bool" where
  "quiet s s' \<longleftrightarrow>
     now s' = now s \<and> open_extra_cashier s' = open_extra_cashier s \<and>
     opened_at s' = opened_at s \<and> activations s' = activations s \<and>
     windows s' = windows s \<and> length (cashiers s') = length (cashiers s) \<and>
     pending_closes s' = pending_closes s \<and> (clock_inv s \<longrightarrow> clock_inv s')"




section \<open>Basic facts\<close>

lemmas prim_defs = schedule_def process_def process_end_def timeout_def exponential_def
  get_resource_def set_resource_def mark_triggered_def trigger_put_def request_def cancel_def
  release_def exit_with_def check_def

lemmas handler_defs = choose_cashier_def customer_arrival_def on_arrival_timeout_def
  customer_process_def on_request_def on_patience_def on_condition_def on_service_def
  open_extra_cashier_process_def on_opener_timeout_def

lemmas run_defs = replication_def replication_start_def Supermarket_def step_def
  URGENT_def NORMAL_def enumerate_eq_zip Let_def next_event_def

subsection \<open>What the simpy operations leave alone\<close>

lemma schedule_frame [simp]:
  "num_cashiers (schedule priority delay ev s) = num_cashiers s"
  "extra_cashier_policy (schedule priority delay ev s) = extra_cashier_policy s"
  "lambda_rate (schedule priority delay ev s) = lambda_rate s"
  "C (schedule priority delay ev s) = C s"
  "now (schedule priority delay ev s) = now s"
  "lost_customers (schedule priority delay ev s) = lost_customers s"
  "profit (schedule priority delay ev s) = profit s"
  "waiting_times (schedule priority delay ev s) = waiting_times s"
  "open_extra_cashier (schedule priority delay ev s) = open_extra_cashier s"
  "next_cid (schedule priority delay ev s) = next_cid s"
  "rng (schedule priority delay ev s) = rng s"
  "served (schedule priority delay ev s) = served s"
  "activations (schedule priority delay ev s) = activations s"
  "opened_at (schedule priority delay ev s) = opened_at s"
  "windows (schedule priority delay ev s) = windows s"
  "cashiers (schedule priority delay ev s) = cashiers s"
  "extra_cashier (schedule priority delay ev s) = extra_cashier s"
  "customers (schedule priority delay ev s) = customers s"
  by (simp_all add: schedule_def)

lemma process_frame [simp]:
  "num_cashiers (process p s) = num_cashiers s"
  "extra_cashier_policy (process p s) = extra_cashier_policy s"
  "lambda_rate (process p s) = lambda_rate s"
  "C (process p s) = C s"
  "now (process p s) = now s"
  "lost_customers (process p s) = lost_customers s"
  "profit (process p s) = profit s"
  "waiting_times (process p s) = waiting_times s"
  "open_extra_cashier (process p s) = open_extra_cashier s"
  "next_cid (process p s) = next_cid s"
  "rng (process p s) = rng s"
  "served (process p s) = served s"
  "activations (process p s) = activations s"
  "opened_at (process p s) = opened_at s"
  "windows (process p s) = windows s"
  "cashiers (process p s) = cashiers s"
  "extra_cashier (process p s) = extra_cashier s"
  "customers (process p s) = customers s"
  by (simp_all add: process_def)

lemma process_end_frame [simp]:
  "num_cashiers (process_end s) = num_cashiers s"
  "extra_cashier_policy (process_end s) = extra_cashier_policy s"
  "lambda_rate (process_end s) = lambda_rate s"
  "C (process_end s) = C s"
  "now (process_end s) = now s"
  "lost_customers (process_end s) = lost_customers s"
  "profit (process_end s) = profit s"
  "waiting_times (process_end s) = waiting_times s"
  "open_extra_cashier (process_end s) = open_extra_cashier s"
  "next_cid (process_end s) = next_cid s"
  "rng (process_end s) = rng s"
  "served (process_end s) = served s"
  "activations (process_end s) = activations s"
  "opened_at (process_end s) = opened_at s"
  "windows (process_end s) = windows s"
  "cashiers (process_end s) = cashiers s"
  "extra_cashier (process_end s) = extra_cashier s"
  "customers (process_end s) = customers s"
  by (simp_all add: process_end_def)

lemma set_resource_frame [simp]:
  "num_cashiers (set_resource r res s) = num_cashiers s"
  "extra_cashier_policy (set_resource r res s) = extra_cashier_policy s"
  "lambda_rate (set_resource r res s) = lambda_rate s"
  "C (set_resource r res s) = C s"
  "now (set_resource r res s) = now s"
  "lost_customers (set_resource r res s) = lost_customers s"
  "profit (set_resource r res s) = profit s"
  "waiting_times (set_resource r res s) = waiting_times s"
  "open_extra_cashier (set_resource r res s) = open_extra_cashier s"
  "next_cid (set_resource r res s) = next_cid s"
  "rng (set_resource r res s) = rng s"
  "served (set_resource r res s) = served s"
  "activations (set_resource r res s) = activations s"
  "opened_at (set_resource r res s) = opened_at s"
  "windows (set_resource r res s) = windows s"
  "evq (set_resource r res s) = evq s"
  "eid (set_resource r res s) = eid s"
  "customers (set_resource r res s) = customers s"
  by (simp_all add: set_resource_def split: cashier_ref.splits)

lemma mark_triggered_frame [simp]:
  "num_cashiers (mark_triggered rid s) = num_cashiers s"
  "extra_cashier_policy (mark_triggered rid s) = extra_cashier_policy s"
  "lambda_rate (mark_triggered rid s) = lambda_rate s"
  "C (mark_triggered rid s) = C s"
  "now (mark_triggered rid s) = now s"
  "lost_customers (mark_triggered rid s) = lost_customers s"
  "profit (mark_triggered rid s) = profit s"
  "waiting_times (mark_triggered rid s) = waiting_times s"
  "open_extra_cashier (mark_triggered rid s) = open_extra_cashier s"
  "next_cid (mark_triggered rid s) = next_cid s"
  "rng (mark_triggered rid s) = rng s"
  "served (mark_triggered rid s) = served s"
  "activations (mark_triggered rid s) = activations s"
  "opened_at (mark_triggered rid s) = opened_at s"
  "windows (mark_triggered rid s) = windows s"
  "evq (mark_triggered rid s) = evq s"
  "eid (mark_triggered rid s) = eid s"
  "cashiers (mark_triggered rid s) = cashiers s"
  "extra_cashier (mark_triggered rid s) = extra_cashier s"
  by (simp_all add: mark_triggered_def split: option.splits)

lemma trigger_put_frame [simp]:
  "num_cashiers (trigger_put r s) = num_cashiers s"
  "extra_cashier_policy (trigger_put r s) = extra_cashier_policy s"
  "lambda_rate (trigger_put r s) = lambda_rate s"
  "C (trigger_put r s) = C s"
  "now (trigger_put r s) = now s"
  "lost_customers (trigger_put r s) = lost_customers s"
  "profit (trigger_put r s) = profit s"
  "waiting_times (trigger_put r s) = waiting_times s"
  "open_extra_cashier (trigger_put r s) = open_extra_cashier s"
  "next_cid (trigger_put r s) = next_cid s"
  "rng (trigger_put r s) = rng s"
  "served (trigger_put r s) = served s"
  "activations (trigger_put r s) = activations s"
  "opened_at (trigger_put r s) = opened_at s"
  "windows (trigger_put r s) = windows s"
  by (simp_all add: trigger_put_def Let_def split: list.splits)

lemma request_frame [simp]:
  "num_cashiers (request r rid s) = num_cashiers s"
  "extra_cashier_policy (request r rid s) = extra_cashier_policy s"
  "lambda_rate (request r rid s) = lambda_rate s"
  "C (request r rid s) = C s"
  "now (request r rid s) = now s"
  "lost_customers (request r rid s) = lost_customers s"
  "profit (request r rid s) = profit s"
  "waiting_times (request r rid s) = waiting_times s"
  "open_extra_cashier (request r rid s) = open_extra_cashier s"
  "next_cid (request r rid s) = next_cid s"
  "rng (request r rid s) = rng s"
  "served (request r rid s) = served s"
  "activations (request r rid s) = activations s"
  "opened_at (request r rid s) = opened_at s"
  "windows (request r rid s) = windows s"
  by (simp_all add: request_def Let_def)

lemma release_frame [simp]:
  "num_cashiers (release r rid s) = num_cashiers s"
  "extra_cashier_policy (release r rid s) = extra_cashier_policy s"
  "lambda_rate (release r rid s) = lambda_rate s"
  "C (release r rid s) = C s"
  "now (release r rid s) = now s"
  "lost_customers (release r rid s) = lost_customers s"
  "profit (release r rid s) = profit s"
  "waiting_times (release r rid s) = waiting_times s"
  "open_extra_cashier (release r rid s) = open_extra_cashier s"
  "next_cid (release r rid s) = next_cid s"
  "rng (release r rid s) = rng s"
  "served (release r rid s) = served s"
  "activations (release r rid s) = activations s"
  "opened_at (release r rid s) = opened_at s"
  "windows (release r rid s) = windows s"
  "customers (release r rid s) = customers s"
  by (simp_all add: release_def Let_def)

lemma check_frame [simp]:
  "num_cashiers (check rid c s) = num_cashiers s"
  "extra_cashier_policy (check rid c s) = extra_cashier_policy s"
  "lambda_rate (check rid c s) = lambda_rate s"
  "C (check rid c s) = C s"
  "now (check rid c s) = now s"
  "lost_customers (check rid c s) = lost_customers s"
  "profit (check rid c s) = profit s"
  "waiting_times (check rid c s) = waiting_times s"
  "open_extra_cashier (check rid c s) = open_extra_cashier s"
  "next_cid (check rid c s) = next_cid s"
  "rng (check rid c s) = rng s"
  "served (check rid c s) = served s"
  "activations (check rid c s) = activations s"
  "opened_at (check rid c s) = opened_at s"
  "windows (check rid c s) = windows s"
  "cashiers (check rid c s) = cashiers s"
  "extra_cashier (check rid c s) = extra_cashier s"
  by (simp_all add: check_def)

lemma timeout_Inr [simp]:
  "timeout delay ev s = Inr s' \<longleftrightarrow> 0 \<le> delay \<and> s' = schedule NORMAL delay ev s"
  by (auto simp: timeout_def)

lemma exponential_Inr [simp]:
  "exponential draws scale s = Inr (x, s') \<longleftrightarrow>
     0 \<le> scale \<and> x = scale * draws (rng s) \<and> s' = s\<lparr>rng := rng s + 1\<rparr>"
  by (auto simp: exponential_def)

lemma cancel_Inr:
  "cancel r rid triggered s = Inr s' \<longleftrightarrow>
     (triggered \<and> s' = s) \<or>
     (\<not> triggered \<and> rid \<in> set (queue (get_resource r s)) \<and>
      s' = set_resource r ((get_resource r s)\<lparr>queue := remove1 rid (queue (get_resource r s))\<rparr>) s)"
  by (auto simp: cancel_def Let_def)

lemma exit_with_Inr:
  "exit_with rid c s = Inr s' \<longleftrightarrow>
     (\<exists>s1. cancel (cashier c) rid (req_triggered c) s = Inr s1 \<and> s' = release (cashier c) rid s1)"
  by (auto simp: exit_with_def split: sum.splits)

lemma exit_with_books:
  assumes "exit_with rid c s = Inr s'"
  shows "profit s' = profit s" "served s' = served s" "windows s' = windows s" "C s' = C s"
    "lost_customers s' = lost_customers s" "waiting_times s' = waiting_times s"
    "open_extra_cashier s' = open_extra_cashier s" "activations s' = activations s"
    "opened_at s' = opened_at s" "now s' = now s" "next_cid s' = next_cid s"
    "extra_cashier_policy s' = extra_cashier_policy s"
  using assms by (auto simp: exit_with_Inr cancel_Inr)

lemma choose_cashier_books:
  assumes "choose_cashier s = Inr (r, s')"
  shows "profit s' = profit s" "served s' = served s" "windows s' = windows s" "C s' = C s"
    "lost_customers s' = lost_customers s" "waiting_times s' = waiting_times s"
    "open_extra_cashier s' = open_extra_cashier s" "activations s' = activations s"
    "opened_at s' = opened_at s" "now s' = now s" "next_cid s' = next_cid s"
    "extra_cashier_policy s' = extra_cashier_policy s" "customers s' = customers s"
    "cashiers s' = cashiers s" "extra_cashier s' = extra_cashier s"
  using assms
  by (auto simp: choose_cashier_def Let_def split: list.splits prod.splits if_splits)

subsection \<open>Steps\<close>

lemma step_cases:
  assumes "step draws s = Inr (stop, s')"
  obtains t p i rest where "evq s = (t, p, i, Until) # rest" "stop" "s' = s\<lparr>now := t, evq := rest\<rparr>"
  | t p i ev rest where "evq s = (t, p, i, ev) # rest" "ev \<noteq> Until" "\<not> stop"
      "dispatch draws ev (s\<lparr>now := t, evq := rest\<rparr>) = Inr s'"
  using assms
  by (auto simp: step_def Let_def split: list.splits sum.splits if_splits)

lemma run_reachable:
  "run fuel draws s = Some (Inr s') \<Longrightarrow> reachable draws s \<Longrightarrow> reachable draws s'"
proof (induction fuel arbitrary: s)
  case 0
  then show ?case by simp
next
  case (Suc fuel)
  from Suc.prems(1) obtain stop s1 where st: "step draws s = Inr (stop, s1)"
    by (auto split: sum.splits)
  with Suc.prems(2) have r1: "reachable draws s1"
    by (rule reachable.reach_step)
  show ?case
  proof (cases stop)
    case True
    with st Suc.prems(1) r1 show ?thesis by simp
  next
    case False
    with st Suc.prems(1) have "run fuel draws s1 = Some (Inr s')" by simp
    then show ?thesis using r1 by (rule Suc.IH)
  qed
qed

lemma replication_reachable:
  "replication fuel draws p idx = Some (Inr s) \<Longrightarrow> reachable draws s"
  unfolding replication_def by (erule run_reachable) (rule reachable.reach_start)

section \<open>Profit accounting\<close>

lemma pow2_powr: "pow2 k = 2 powr of_int k"
proof (cases "0 \<le> k")
  case True
  then have "2 powr real_of_int k = 2 powr real (nat k)" by simp
  also have "\<dots> = 2 ^ nat k" by (rule powr_realpow) simp
  finally show ?thesis using True by (simp add: pow2_def)
next
  case False
  then have "2 powr real_of_int k = 2 powr (- real (nat (- k)))" by simp
  also have "\<dots> = 1 / 2 powr real (nat (- k))" by (simp add: powr_minus_divide)
  also have "2 powr real (nat (- k)) = 2 ^ nat (- k)" by (rule powr_realpow) simp
  finally show ?thesis using False by (simp add: pow2_def)
qed

text \<open>Rounding a number whose binade is known.\<close>

lemma round64_binade:
  assumes "pow2 k \<le> \<bar>x\<bar>" "\<bar>x\<bar> < pow2 (k + 1)"
  shows "round64 x = of_int (rte (x / pow2 (k - 52))) * pow2 (k - 52)"
proof -
  have "0 < pow2 k" by (simp add: pow2_powr)
  with assms(1) have pos: "0 < \<bar>x\<bar>" by linarith
  then have "\<lfloor>log 2 \<bar>x\<bar>\<rfloor> = k"
    using assms by (simp add: floor_log_eq_powr_iff pow2_powr)
  with pos show ?thesis by (simp add: round64_def Let_def)
qed

lemma dispatch_profit_inv:
  assumes "profit_inv s" and "dispatch draws ev s = Inr s'"
  shows "profit_inv s' \<and> C s' = C s"
proof (cases ev)
  case (Initialize p)
  show ?thesis
  proof (cases p)
    case Arrival
    with Initialize assms show ?thesis
      by (auto simp: profit_inv_def customer_arrival_def split: if_splits sum.splits)
  next
    case (Customer a)
    with Initialize assms show ?thesis
      by (auto simp: profit_inv_def customer_process_def Let_def choose_cashier_books
               split: sum.splits option.splits)
  next
    case Opener
    with Initialize assms show ?thesis
      by (auto simp: profit_inv_def open_extra_cashier_process_def split: if_splits)
  qed
next
  case ArrivalTimeout
  with assms show ?thesis
    by (auto simp: profit_inv_def on_arrival_timeout_def customer_arrival_def
             split: if_splits sum.splits)
next
  case (Request rid)
  with assms show ?thesis
    by (auto simp: profit_inv_def on_request_def Let_def split: option.splits if_splits)
next
  case (PatienceTimeout rid)
  with assms show ?thesis
    by (auto simp: profit_inv_def on_patience_def split: option.splits if_splits)
next
  case (Condition rid)
  with assms show ?thesis
    by (auto simp: profit_inv_def on_condition_def Let_def exit_with_books
             split: option.splits if_splits sum.splits)
next
  case (ServiceTimeout rid)
  with assms show ?thesis
    by (auto simp: profit_inv_def on_service_def exit_with_books algebra_simps
             split: option.splits sum.splits)
next
  case (Release r)
  with assms show ?thesis by (auto simp: profit_inv_def)
next
  case OpenerTimeout
  with assms show ?thesis
    by (auto simp: profit_inv_def on_opener_timeout_def algebra_simps)
qed (use assms in auto)

lemma step_profit_inv:
  assumes "profit_inv s" and "step draws s = Inr (stop, s')"
  shows "profit_inv s' \<and> C s' = C s"
  using assms(2)
proof (cases rule: step_cases)
  case (1 t p i rest)
  with assms(1) show ?thesis by (simp add: profit_inv_def)
next
  case (2 t p i ev rest)
  from assms(1) have "profit_inv (s\<lparr>now := t, evq := rest\<rparr>)"
    by (simp add: profit_inv_def)
  from dispatch_profit_inv [OF this 2(4)] show ?thesis by simp
qed

lemma run_profit_inv:
  "run fuel draws s = Some (Inr s') \<Longrightarrow> profit_inv s \<Longrightarrow> profit_inv s' \<and> C s' = C s"
proof (induction fuel arbitrary: s)
  case 0
  then show ?case by simp
next
  case (Suc fuel)
  from Suc.prems(1) obtain stop s1 where st: "step draws s = Inr (stop, s1)"
    by (auto split: sum.splits)
  from step_profit_inv [OF Suc.prems(2) st] have s1: "profit_inv s1" "C s1 = C s"
    by simp_all
  show ?case
  proof (cases stop)
    case True
    with st Suc.prems(1) s1 show ?thesis by simp
  next
    case False
    with st Suc.prems(1) have "run fuel draws s1 = Some (Inr s')" by simp
    from Suc.IH [OF this s1(1)] s1(2) show ?thesis by simp
  qed
qed

text \<open>
  C1, as stated, fails for a float \<open>C\<close>: each update of the profit is rounded.  With one
  completed service and two closed windows at \<open>C = 0.1\<close> the profit ends as
  9.600000000000001 (the first number below), while \<open>10 * 1 - 2 * C * 2\<close> is 9.6 when
  Python evaluates it (the second number) and a third number in exact arithmetic.
\<close>

theorem replication_profit_float_counterexample:
  "final_accounts (replication 40 draws_two params_tenth 0) =
     Some (1, 2, PyFloat (1351079888211149 / 140737488355328)) \<and>
   py_sub (py_mul (PyInt 10) (PyInt 1)) (py_mul (py_mul (PyInt 2) (C params_tenth)) (PyInt 2)) =
     PyFloat (5404319552844595 / 562949953421312) \<and>
   (1351079888211149 / 140737488355328 :: real) \<noteq> 5404319552844595 / 562949953421312 \<and>
   (1351079888211149 / 140737488355328 :: real) \<noteq>
     10 * 1 - 2 * py_float (C params_tenth) * 2"
proof -
  have two: "round64 2 = 2"
    by (subst round64_binade [of 1]) (simp_all add: pow2_def rte_def Let_def)
  have ten: "round64 10 = 10"
    by (subst round64_binade [of 3]) (simp_all add: pow2_def rte_def Let_def)
  have fifth: "round64 (3602879701896397 / 18014398509481984) =
      3602879701896397 / 18014398509481984"
    by (subst round64_binade [of "- 3"]) (simp_all add: pow2_def rte_def Let_def)
  have first: "round64 (176541105392923443 / 18014398509481984) =
      2758454771764429 / 281474976710656"
    by (subst round64_binade [of 3]) (simp_all add: pow2_def rte_def Let_def)
  have second: "round64 (172938225691027059 / 18014398509481984) =
      1351079888211149 / 140737488355328"
    by (subst round64_binade [of 3]) (simp_all add: pow2_def rte_def Let_def)
  have two_fifths: "round64 (3602879701896397 / 9007199254740992) =
      3602879701896397 / 9007199254740992"
    by (subst round64_binade [of "- 2"]) (simp_all add: pow2_def rte_def Let_def)
  have formula: "round64 (86469112845513523 / 9007199254740992) =
      5404319552844595 / 562949953421312"
    by (subst round64_binade [of 3]) (simp_all add: pow2_def rte_def Let_def)
  have run: "final_accounts (replication 40 draws_two params_tenth 0) =
      Some (1, 2, PyFloat (1351079888211149 / 140737488355328))"
    by (simp add: final_accounts_def params_tenth_def draws_two_def run_defs prim_defs
          handler_defs eval_nat_numeral two ten fifth first second)
  have "py_sub (py_mul (PyInt 10) (PyInt 1)) (py_mul (py_mul (PyInt 2) (C params_tenth)) (PyInt 2)) =
      PyFloat (5404319552844595 / 562949953421312)"
    by (simp add: params_tenth_def two ten fifth two_fifths formula)
  with run show ?thesis by (simp add: params_tenth_def)
qed

text \<open>
  C1, amended.  With an int \<open>C\<close>, a replication that returns ends with a profit of 10 for
  each completed service minus \<open>2 * C\<close> for each window that was closed (and charged):
  the profit changes at these two places only, and int arithmetic is exact.
\<close>

theorem replication_profit:
  assumes "replication fuel draws p idx = Some (Inr s)" and "C p = PyInt c"
  shows "profit s = PyInt (10 * int (served s) - 2 * c * int (length (windows s)))"
proof -
  have "profit_inv (replication_start p idx)"
    by (simp add: profit_inv_def replication_start_def Supermarket_def)
  moreover have "C (replication_start p idx) = C p"
    by (simp add: replication_start_def Supermarket_def)
  ultimately show ?thesis
    using run_profit_inv [of fuel draws "replication_start p idx" s] assms
    by (simp add: replication_def profit_inv_def)
qed

theorem replication_profit_witness:
  "C params_one = PyInt 3 \<and>
   (\<exists>s. replication 20 draws_one params_one 0 = Some (Inr s) \<and> served s = 1 \<and>
       windows s = [(1, 3)] \<and> profit s = PyInt 4 \<and>
       profit s = PyInt (10 * int (served s) - 2 * 3 * int (length (windows s))))"
proof -
  have c: "C params_one = PyInt 3" by (simp add: params_one_def)
  have "map_option (map_sum id (\<lambda>s. (served s, windows s, profit s)))
          (replication 20 draws_one params_one 0) = Some (Inr (1, [(1, 3)], PyInt 4))"
    by (simp add: params_one_def draws_one_def run_defs prim_defs handler_defs eval_nat_numeral)
  then obtain s where r: "replication 20 draws_one params_one 0 = Some (Inr s)"
    and v: "served s = 1" "windows s = [(1, 3)]" "profit s = PyInt 4"
    by (cases "replication 20 draws_one params_one 0") (auto simp: map_sum_def split: sum.splits)
  from replication_profit [OF r c] r v c show ?thesis by simp
qed

section \<open>Routing\<close>

lemma hd_insort_key:
  "hd (insort_key f x xs) = (if xs = [] \<or> f x \<le> f (hd xs) then x else hd xs)"
  by (cases xs) auto

lemma sort_key_not_Nil: "xs \<noteq> [] \<Longrightarrow> sort_key f xs \<noteq> []"
  by (metis length_sort length_0_conv)

lemma sort_key_hd_stable:
  "xs \<noteq> [] \<Longrightarrow>
     \<exists>pre post. xs = pre @ hd (sort_key f xs) # post \<and>
       (\<forall>y \<in> set pre. f (hd (sort_key f xs)) < f y) \<and>
       (\<forall>y \<in> set post. f (hd (sort_key f xs)) \<le> f y)"
proof (induction xs)
  case Nil
  then show ?case by simp
next
  case (Cons x xs)
  let ?h = "hd (sort_key f xs)"
  show ?case
  proof (cases "xs = []")
    case True
    then show ?thesis by (intro exI [of _ "[]"]) simp
  next
    case False
    then obtain pre post where split: "xs = pre @ ?h # post"
      and pre: "\<forall>y \<in> set pre. f ?h < f y" and post: "\<forall>y \<in> set post. f ?h \<le> f y"
      using Cons.IH by blast
    from False have ne: "sort_key f xs \<noteq> []" by (rule sort_key_not_Nil)
    show ?thesis
    proof (cases "f x \<le> f ?h")
      case True
      with ne have hd: "hd (sort_key f (x # xs)) = x"
        by (simp add: hd_insort_key)
      have "\<forall>y \<in> set xs. f x \<le> f y"
      proof
        fix y assume "y \<in> set xs"
        with split have "y \<in> set pre \<or> y = ?h \<or> y \<in> set post"
          by (metis Un_iff insert_iff list.simps(15) set_append)
        with pre post True show "f x \<le> f y" by fastforce
      qed
      with hd show ?thesis by (intro exI [of _ "[]"] exI [of _ xs]) simp
    next
      case False
      with ne have hd: "hd (sort_key f (x # xs)) = ?h"
        by (simp add: hd_insort_key)
      from split have "x # xs = (x # pre) @ ?h # post" by simp
      moreover from pre False have "\<forall>y \<in> set (x # pre). f ?h < f y" by auto
      ultimately show ?thesis using post hd by metis
    qed
  qed
qed

lemma choose_min:
  assumes "cs \<noteq> []"
  defines "h \<equiv> hd (sort_key fst (map (\<lambda>(i, c). (length (queue c), i)) (enumerate 0 cs)))"
  shows "snd h < length cs \<and> fst h = length (queue (cs ! snd h)) \<and>
         (\<forall>j < length cs. fst h \<le> length (queue (cs ! j))) \<and>
         (\<forall>j < snd h. fst h < length (queue (cs ! j)))"
proof -
  let ?g = "\<lambda>j. (length (queue (cs ! j)), j)"
  let ?xs = "map (\<lambda>(i, c). (length (queue c), i)) (enumerate 0 cs)"
  have xs: "?xs = map ?g [0..<length cs]"
    by (rule nth_equalityI) (simp_all add: nth_enumerate_eq)
  with assms(1) have "?xs \<noteq> []" by simp
  from sort_key_hd_stable [OF this, of fst] obtain pre post
    where split: "?xs = pre @ h # post"
      and pre: "\<forall>y \<in> set pre. fst h < fst y" and post: "\<forall>y \<in> set post. fst h \<le> fst y"
    unfolding h_def by blast
  have len: "length pre < length cs"
    using arg_cong [OF split, of length] by simp
  have nth: "\<And>j. j < length cs \<Longrightarrow> (pre @ h # post) ! j = ?g j"
    using split xs by (metis (no_types, lifting) add_0 length_map length_upt minus_nat.diff_0 nth_map nth_upt)
  from nth [OF len] have h: "h = ?g (length pre)" by simp
  have below: "fst h < length (queue (cs ! j))" if "j < length pre" for j
  proof -
    from that len have "(pre @ h # post) ! j = ?g j" by (intro nth) simp
    with that have "pre ! j = ?g j" by (simp add: nth_append)
    with that pre show ?thesis by (metis fst_conv nth_mem)
  qed
  have above: "fst h \<le> length (queue (cs ! j))" if "j < length cs" for j
  proof -
    consider "j < length pre" | "j = length pre" | "length pre < j" by linarith
    then show ?thesis
    proof cases
      case 1
      then show ?thesis using below by (simp add: less_imp_le)
    next
      case 2
      with h show ?thesis by simp
    next
      case 3
      from that have "(pre @ h # post) ! j = ?g j" by (rule nth)
      with 3 have "post ! (j - length pre - 1) = ?g j"
        by (simp add: nth_append nth_Cons')
      moreover from 3 that have "j - length pre - 1 < length post"
        using arg_cong [OF split, of length] by simp
      ultimately show ?thesis using post by (metis fst_conv nth_mem)
    qed
  qed
  from h len below above show ?thesis by simp
qed

lemma choose_cashier_open:
  assumes "cashiers s \<noteq> []" and "open_extra_cashier s"
  shows "choose_cashier s = Inr (Some Extra, s)"
proof -
  let ?qs = "sort_key fst (map (\<lambda>(i, c). (length (queue c), i)) (enumerate 0 (cashiers s)))"
  from assms(1) have "?qs \<noteq> []" by (intro sort_key_not_Nil) (simp add: enumerate_eq_zip)
  then obtain m i rest where "?qs = (m, i) # rest" by (cases ?qs) auto
  with assms(2) show ?thesis by (simp add: choose_cashier_def)
qed

lemma choose_cashier_closed:
  assumes "cashiers s \<noteq> []" and "\<not> open_extra_cashier s"
  shows "\<exists>i. i < length (cashiers s) \<and>
           (\<forall>j < length (cashiers s). qlen s i \<le> qlen s j) \<and>
           (\<forall>j < i. qlen s i < qlen s j) \<and>
           choose_cashier s =
             Inr (if qlen s i < 5 then Some (Regular i) else None,
                  if extra_cashier_policy s \<le> int (qlen s i) then process Opener s else s)"
proof -
  let ?qs = "sort_key fst (map (\<lambda>(i, c). (length (queue c), i)) (enumerate 0 (cashiers s)))"
  from assms(1) have "?qs \<noteq> []" by (intro sort_key_not_Nil) (simp add: enumerate_eq_zip)
  then obtain m i rest where qs: "?qs = (m, i) # rest" by (cases ?qs) auto
  from choose_min [OF assms(1)] qs
  have "i < length (cashiers s) \<and> m = qlen s i \<and>
    (\<forall>j < length (cashiers s). m \<le> qlen s j) \<and> (\<forall>j < i. m < qlen s j)"
    by (auto simp: qlen_def)
  then have i: "i < length (cashiers s)" "m = qlen s i"
    "\<forall>j < length (cashiers s). qlen s i \<le> qlen s j" "\<forall>j < i. qlen s i < qlen s j"
    by blast+
  have "choose_cashier s =
      Inr (if qlen s i < 5 then Some (Regular i) else None,
           if extra_cashier_policy s \<le> int (qlen s i) then process Opener s else s)"
    using qs i(2) assms(2) by (simp add: choose_cashier_def)
  with i show ?thesis by blast
qed



text \<open>
  C2.  With at least one regular cashier, \<open>choose_cashier\<close> returns the overflow resource
  whenever the flag is up, whatever the queues are, and changes nothing.  Otherwise it
  selects the regular cashier with the shortest queue, the one with the lowest index among
  equals; it returns that cashier if its queue is shorter than 5 (and nothing if not), and
  starts the opening process if the queue has reached the threshold.
\<close>

theorem choose_cashier_routing:
  assumes "cashiers s \<noteq> []"
  shows "(open_extra_cashier s \<longrightarrow> choose_cashier s = Inr (Some Extra, s)) \<and>
         (\<not> open_extra_cashier s \<longrightarrow>
            (\<exists>i. i < length (cashiers s) \<and>
               (\<forall>j < length (cashiers s). qlen s i \<le> qlen s j) \<and>
               (\<forall>j < i. qlen s i < qlen s j) \<and>
               choose_cashier s =
                 Inr (if qlen s i < 5 then Some (Regular i) else None,
                      if extra_cashier_policy s \<le> int (qlen s i) then process Opener s else s)))"
  using choose_cashier_open [OF assms] choose_cashier_closed [OF assms] by blast

theorem choose_cashier_routing_witness:
  "cashiers three_queues \<noteq> [] \<and> \<not> open_extra_cashier three_queues \<and>
   choose_cashier three_queues = Inr (Some (Regular 1), three_queues) \<and>
   choose_cashier (three_queues\<lparr>open_extra_cashier := True\<rparr>) =
     Inr (Some Extra, three_queues\<lparr>open_extra_cashier := True\<rparr>)"
proof -
  have ne: "cashiers three_queues \<noteq> []"
    and ne': "cashiers (three_queues\<lparr>open_extra_cashier := True\<rparr>) \<noteq> []"
    by (simp_all add: three_queues_def Supermarket_def)
  have closed: "\<not> open_extra_cashier three_queues"
    by (simp add: three_queues_def Supermarket_def)
  have "choose_cashier three_queues = Inr (Some (Regular 1), three_queues)"
    by (simp add: three_queues_def Supermarket_def choose_cashier_def enumerate_eq_zip)
  with ne closed choose_cashier_routing [OF ne'] show ?thesis by simp
qed


section \<open>Balking\<close>

text \<open>
  C5.  When a customer process starts while the overflow window is closed and every
  regular queue holds at least 5 requests (the minimum is at least 5), the step succeeds,
  counts one lost customer and leaves every resource, the set of waiting customers, the
  waiting times and the profit as they were: the customer joins no queue.
\<close>

theorem balk_step:
  assumes "next_event s = Some (t, Initialize (Customer a))"
    and "cashiers s \<noteq> []" and "\<not> open_extra_cashier s"
    and "\<forall>j < length (cashiers s). 5 \<le> qlen s j"
  shows "\<exists>s'. step draws s = Inr (False, s') \<and> lost_customers s' = lost_customers s + 1 \<and>
           cashiers s' = cashiers s \<and> extra_cashier s' = extra_cashier s \<and>
           customers s' = customers s \<and> waiting_times s' = waiting_times s \<and>
           profit s' = profit s"
proof -
  from assms(1) obtain p i rest where q: "evq s = (t, p, i, Initialize (Customer a)) # rest"
    by (auto simp: next_event_def split: list.splits)
  let ?s1 = "s\<lparr>now := t, evq := rest\<rparr>"
  have "cashiers ?s1 \<noteq> []" "\<not> open_extra_cashier ?s1" using assms(2,3) by simp_all
  from choose_cashier_closed [OF this] obtain k s2
    where k: "k < length (cashiers s)"
      and ch: "choose_cashier ?s1 = Inr (if qlen ?s1 k < 5 then Some (Regular k) else None, s2)"
    by auto
  from k assms(4) have "\<not> qlen ?s1 k < 5" by (auto simp: qlen_def)
  with ch have ch': "choose_cashier ?s1 = Inr (None, s2)" by simp
  then have "step draws s = Inr (False, process_end (s2\<lparr>lost_customers := lost_customers s2 + 1\<rparr>))"
    using q by (simp add: step_def customer_process_def)
  with choose_cashier_books [OF ch'] show ?thesis by simp
qed

lemma busy_state_facts:
  "next_event busy_state = Some (8 / 5, Initialize (Customer (8 / 5)))"
  "cashiers busy_state = [\<lparr>users = [0], queue = [1, 2, 3, 4, 5]\<rparr>]"
  "open_extra_cashier busy_state = False"
  "lost_customers busy_state = 0"
  by (simp_all add: busy_state_def params_busy_def draws_busy_def run_defs prim_defs handler_defs
        eval_nat_numeral)

theorem balk_step_witness:
  "next_event busy_state = Some (8 / 5, Initialize (Customer (8 / 5))) \<and>
   cashiers busy_state = [\<lparr>users = [0], queue = [1, 2, 3, 4, 5]\<rparr>] \<and>
   \<not> open_extra_cashier busy_state \<and> qlen busy_state 0 = 5 \<and>
   (\<exists>s'. step draws_busy busy_state = Inr (False, s') \<and> lost_customers s' = 1 \<and>
      cashiers s' = cashiers busy_state \<and> extra_cashier s' = extra_cashier busy_state \<and>
      customers s' = customers busy_state \<and> waiting_times s' = waiting_times busy_state \<and>
      profit s' = profit busy_state)"
proof -
  have "cashiers busy_state \<noteq> []" "\<not> open_extra_cashier busy_state"
    "\<forall>j < length (cashiers busy_state). 5 \<le> qlen busy_state j"
    by (simp_all add: busy_state_facts qlen_def)
  from balk_step [OF busy_state_facts(1) this, of draws_busy] show ?thesis
    by (simp add: busy_state_facts qlen_def)
qed

section \<open>The statistics of \<open>simulate\<close>\<close>



























section \<open>The bound on the regular queues\<close>

lemma length_cashiers_set_resource [simp]:
  "length (cashiers (set_resource r res s)) = length (cashiers s)"
  by (simp add: set_resource_def split: cashier_ref.splits)













section \<open>Customers and queues\<close>

lemma valid_ref_set_resource [simp]: "valid_ref (set_resource r res s) r' = valid_ref s r'"
  by (simp add: valid_ref_def split: cashier_ref.splits)

lemma set_resource_invalid: "\<not> valid_ref s r \<Longrightarrow> set_resource r res s = s"
  by (cases r) (simp_all add: valid_ref_def set_resource_def list_update_beyond not_less)

lemma get_set_resource:
  "get_resource r' (set_resource r res s) =
     (if r' = r \<and> valid_ref s r then res else get_resource r' s)"
proof (cases "valid_ref s r")
  case True
  then show ?thesis
    by (cases r; cases r') (simp_all add: valid_ref_def get_resource_def set_resource_def)
next
  case False
  then show ?thesis by (simp add: set_resource_invalid)
qed

lemma get_resource_updates [simp]:
  "get_resource r (s\<lparr>customers := m\<rparr>) = get_resource r s"
  "get_resource r (s\<lparr>next_cid := n\<rparr>) = get_resource r s"
  "get_resource r (s\<lparr>lost_customers := l\<rparr>) = get_resource r s"
  "get_resource r (s\<lparr>profit := x\<rparr>) = get_resource r s"
  "get_resource r (s\<lparr>served := k\<rparr>) = get_resource r s"
  "get_resource r (s\<lparr>waiting_times := w\<rparr>) = get_resource r s"
  "get_resource r (s\<lparr>rng := g\<rparr>) = get_resource r s"
  "get_resource r (s\<lparr>now := t\<rparr>) = get_resource r s"
  "get_resource r (s\<lparr>evq := q\<rparr>) = get_resource r s"
  by (simp_all add: get_resource_def split: cashier_ref.splits)

lemma valid_ref_updates [simp]:
  "valid_ref (s\<lparr>customers := m\<rparr>) r = valid_ref s r"
  "valid_ref (s\<lparr>next_cid := n\<rparr>) r = valid_ref s r"
  "valid_ref (s\<lparr>lost_customers := l\<rparr>) r = valid_ref s r"
  "valid_ref (s\<lparr>profit := x\<rparr>) r = valid_ref s r"
  "valid_ref (s\<lparr>served := k\<rparr>) r = valid_ref s r"
  "valid_ref (s\<lparr>waiting_times := w\<rparr>) r = valid_ref s r"
  "valid_ref (s\<lparr>rng := g\<rparr>) r = valid_ref s r"
  "valid_ref (s\<lparr>now := t\<rparr>) r = valid_ref s r"
  "valid_ref (s\<lparr>evq := q\<rparr>) r = valid_ref s r"
  by (simp_all add: valid_ref_def split: cashier_ref.splits)

lemma cust_invI:
  assumes "\<And>rid c. customers s rid = Some c \<Longrightarrow> rid < next_cid s \<and> valid_ref s (cashier c)"
    and "\<And>r rid. valid_ref s r \<Longrightarrow> rid \<in> set (queue (get_resource r s)) \<Longrightarrow>
        \<exists>c. customers s rid = Some c \<and> cashier c = r \<and> \<not> req_triggered c"
    and "\<And>r. valid_ref s r \<Longrightarrow> distinct (queue (get_resource r s))"
    and "\<And>rid c. customers s rid = Some c \<Longrightarrow> \<not> req_triggered c \<Longrightarrow>
        rid \<in> set (queue (get_resource (cashier c) s))"
    and "\<And>rid c. customers s rid = Some c \<Longrightarrow> req_processed c \<Longrightarrow> req_triggered c"
  shows "cust_inv s"
  unfolding cust_inv_def using assms by blast

lemma cust_dom:
  "cust_inv s \<Longrightarrow> customers s rid = Some c \<Longrightarrow> rid < next_cid s \<and> valid_ref s (cashier c)"
  unfolding cust_inv_def by blast

lemma cust_mem:
  "cust_inv s \<Longrightarrow> valid_ref s r \<Longrightarrow> rid \<in> set (queue (get_resource r s)) \<Longrightarrow>
     \<exists>c. customers s rid = Some c \<and> cashier c = r \<and> \<not> req_triggered c"
  unfolding cust_inv_def by blast

lemma cust_dist: "cust_inv s \<Longrightarrow> valid_ref s r \<Longrightarrow> distinct (queue (get_resource r s))"
  unfolding cust_inv_def by blast

lemma cust_in:
  "cust_inv s \<Longrightarrow> customers s rid = Some c \<Longrightarrow> \<not> req_triggered c \<Longrightarrow>
     rid \<in> set (queue (get_resource (cashier c) s))"
  unfolding cust_inv_def by blast

lemma cust_proc:
  "cust_inv s \<Longrightarrow> customers s rid = Some c \<Longrightarrow> req_processed c \<Longrightarrow> req_triggered c"
  unfolding cust_inv_def by blast




lemma get_resource_prims [simp]:
  "get_resource r (schedule priority delay ev s) = get_resource r s"
  "get_resource r (process p s) = get_resource r s"
  "get_resource r (process_end s) = get_resource r s"
  "get_resource r (mark_triggered rid s) = get_resource r s"
  "get_resource r (check rid c s) = get_resource r s"
  by (simp_all add: get_resource_def split: cashier_ref.splits)

lemma length_cashiers_prims [simp]:
  "length (cashiers (trigger_put r s)) = length (cashiers s)"
  "length (cashiers (request r rid s)) = length (cashiers s)"
  "length (cashiers (release r rid s)) = length (cashiers s)"
  by (simp_all add: trigger_put_def request_def release_def Let_def split: list.splits)

lemma valid_ref_prims [simp]:
  "valid_ref (schedule priority delay ev s) r = valid_ref s r"
  "valid_ref (process p s) r = valid_ref s r"
  "valid_ref (process_end s) r = valid_ref s r"
  "valid_ref (mark_triggered rid s) r = valid_ref s r"
  "valid_ref (check rid c s) r = valid_ref s r"
  "valid_ref (trigger_put r' s) r = valid_ref s r"
  "valid_ref (request r' rid s) r = valid_ref s r"
  "valid_ref (release r' rid s) r = valid_ref s r"
  by (simp_all add: valid_ref_def split: cashier_ref.splits)

lemma trigger_put_cases:
  obtains (idle) "trigger_put r s = s"
  | (grant) h rest where "queue (get_resource r s) = h # rest"
      "trigger_put r s = schedule NORMAL 0 (Request h)
         (mark_triggered h (set_resource r \<lparr>users = [h], queue = rest\<rparr> s))"
proof (cases "queue (get_resource r s)")
  case Nil
  then have "trigger_put r s = s" by (simp add: trigger_put_def)
  then show ?thesis by (rule idle)
next
  case (Cons h rest)
  show ?thesis
  proof (cases "users (get_resource r s) = []")
    case True
    with Cons have "trigger_put r s = schedule NORMAL 0 (Request h)
         (mark_triggered h (set_resource r \<lparr>users = [h], queue = rest\<rparr> s))"
      by (simp add: trigger_put_def)
    with Cons show ?thesis by (rule grant)
  next
    case False
    with Cons have "trigger_put r s = s" by (simp add: trigger_put_def)
    then show ?thesis by (rule idle)
  qed
qed

text \<open>The head of a queue is granted: it leaves the queue and its request is triggered.\<close>

lemma cust_inv_grant:
  assumes inv: "cust_inv s" and v: "valid_ref s r" and q: "queue (get_resource r s) = h # rest"
  shows "cust_inv (mark_triggered h (set_resource r \<lparr>users = u, queue = rest\<rparr> s))"
    (is "cust_inv ?s'")
proof -
  let ?s1 = "set_resource r \<lparr>users = u, queue = rest\<rparr> s"
  from q have "h \<in> set (queue (get_resource r s))" by simp
  from cust_mem [OF inv v this] obtain c where
    c: "customers s h = Some c" "cashier c = r" "\<not> req_triggered c" by blast
  from cust_dist [OF inv v] q have hr: "h \<notin> set rest" "distinct rest" by simp_all
  have cu: "customers ?s' = (customers s)(h \<mapsto> c\<lparr>req_triggered := True\<rparr>)"
    using c by (simp add: mark_triggered_def)
  have n: "next_cid ?s' = next_cid s" by simp
  have g: "queue (get_resource r' ?s') = (if r' = r then rest else queue (get_resource r' s))" for r'
    using v by (simp add: get_set_resource)
  show ?thesis
  proof (rule cust_invI)
    fix x d assume "customers ?s' x = Some d"
    with cust_dom [OF inv, of x d] cust_dom [OF inv c(1)]
    show "x < next_cid ?s' \<and> valid_ref ?s' (cashier d)"
      unfolding cu n by (cases "x = h") auto
  next
    fix r' x assume a: "valid_ref ?s' r'" "x \<in> set (queue (get_resource r' ?s'))"
    show "\<exists>d. customers ?s' x = Some d \<and> cashier d = r' \<and> \<not> req_triggered d"
    proof (cases "r' = r")
      case True
      with a g have x: "x \<in> set rest" by simp
      with hr have "x \<noteq> h" by auto
      moreover from x q have "x \<in> set (queue (get_resource r s))" by simp
      from cust_mem [OF inv v this] obtain d where
        "customers s x = Some d" "cashier d = r" "\<not> req_triggered d" by blast
      ultimately show ?thesis unfolding cu using True by simp
    next
      case False
      with a g have x: "x \<in> set (queue (get_resource r' s))" and v': "valid_ref s r'" by simp_all
      from cust_mem [OF inv v' x] obtain d where
        d: "customers s x = Some d" "cashier d = r'" "\<not> req_triggered d" by blast
      with c False have "x \<noteq> h" by auto
      with d show ?thesis unfolding cu by simp
    qed
  next
    fix r' assume "valid_ref ?s' r'"
    with cust_dist [OF inv, of r'] hr show "distinct (queue (get_resource r' ?s'))"
      unfolding g by simp
  next
    fix x d assume a: "customers ?s' x = Some d" "\<not> req_triggered d"
    then have xh: "x \<noteq> h" unfolding cu by (auto split: if_splits)
    with a have d: "customers s x = Some d" unfolding cu by simp
    from cust_in [OF inv d a(2)] have "x \<in> set (queue (get_resource (cashier d) s))" .
    with xh q show "x \<in> set (queue (get_resource (cashier d) ?s'))"
      unfolding g by auto
  next
    fix x d assume a: "customers ?s' x = Some d" "req_processed d"
    show "req_triggered d"
    proof (cases "x = h")
      case True
      with a show ?thesis unfolding cu by auto
    next
      case False
      with a cust_proc [OF inv, of x d] show ?thesis unfolding cu by simp
    qed
  qed
qed

lemma cust_inv_schedule [simp]: "cust_inv (schedule priority delay ev s) = cust_inv s"
  by (simp add: cust_inv_def)

lemma cust_inv_trigger_put:
  assumes "cust_inv s" and "valid_ref s r"
  shows "cust_inv (trigger_put r s)"
proof (cases r s rule: trigger_put_cases)
  case idle
  with assms(1) show ?thesis by simp
next
  case (grant h rest)
  from cust_inv_grant [OF assms grant(1)] grant(2) show ?thesis by simp
qed





subsection \<open>Pending events\<close>

lemma set_heappush [simp]: "set (heappush e q) = insert e (set q)"
  by (induction q) auto

lemma entry_ok_frame:
  assumes "customers s' = customers s" "next_cid s' = next_cid s"
    "length (cashiers s') = length (cashiers s)"
  shows "entry_ok s' e = entry_ok s e"
proof -
  obtain t p i ev where e: "e = (t, p, i, ev)" by (cases e)
  from assms(3) have ne: "(cashiers s' = []) = (cashiers s = [])" by (metis length_0_conv)
  have "entry_ok s' (t, p, i, ev) = entry_ok s (t, p, i, ev)"
  proof (cases ev)
    case (Initialize pr)
    with ne show ?thesis by (cases pr) simp_all
  next
    case (Release r)
    with assms(3) show ?thesis by (simp add: valid_ref_def split: cashier_ref.splits)
  qed (use assms in simp_all)
  then show ?thesis by (simp add: e)
qed


lemma evolves_refl [simp]: "evolves s s"
  by (simp add: evolves_def)










lemma entry_ok_prims [simp]:
  "entry_ok (schedule priority delay ev s) e = entry_ok s e"
  "entry_ok (process pr s) e = entry_ok s e"
  "entry_ok (process_end s) e = entry_ok s e"
  by (rule entry_ok_frame; simp)+









subsection \<open>The handlers keep the state well-formed\<close>























section \<open>The overflow window\<close>

subsection \<open>The clock and the closing timeout\<close>






lemma quiet_refl [simp]: "quiet s s"
  by (simp add: quiet_def)
































subsection \<open>The window in every reachable state\<close>







end
